theory Spec2Isabelle
  imports Main "HOL-Library.Word"
begin

section \<open>The PNG to JPG conversion of generateImage\<close>

text \<open>
  The model covers the last part of the request handler \<open>generateImage\<close>
  (routes/generate.js, from the comment "PNG -> JPG CONVERSION (1-3 MB TARGET)" to the end
  of the function): the loop that re-encodes the generated image at varying width and
  quality, the final validation and the two responses, together with the \<open>catch\<close> block
  that an exception of the encoder reaches.
\<close>

subsection \<open>Data\<close>

text \<open>A Node \<open>Buffer\<close> is a sequence of bytes; \<open>buf.length\<close> is \<open>length buf\<close>.\<close>

type_synonym buffer = "8 word list"

text \<open>
  The encode step \<open>sharp(pngBuffer).resize({width, withoutEnlargement: false})
  .jpeg({quality, mozjpeg: true, chromaSubsampling: "4:4:4"}).toBuffer()\<close> for the
  \<open>pngBuffer\<close> of the request, as a function of \<open>width\<close> and \<open>quality\<close>. The library is
  external: \<open>None\<close> stands for a rejected promise (the awaited call throws, for example
  because the source bytes cannot be decoded).
\<close>

type_synonym encoder = "int \<Rightarrow> int \<Rightarrow> buffer option"

definition MIN_SIZE :: nat where
  "MIN_SIZE = 1 * 1024 * 1024"

definition MAX_SIZE :: nat where
  "MAX_SIZE = 3 * 1024 * 1024"

text \<open>The variables the loop assigns: \<open>let jpgBuffer; let width = 2800; let quality = 94;\<close>
  (\<open>jpgBuffer\<close> is \<open>undefined\<close>, here \<open>None\<close>, until the first encode returns).\<close>

record vars =
  jpgBuffer :: "buffer option"
  width :: int
  quality :: int

definition initial_vars :: vars where
  "initial_vars = \<lparr>jpgBuffer = None, width = 2800, quality = 94\<rparr>"

text \<open>One call of the encode step: the arguments it was given and the length of the buffer it
  returned (\<open>None\<close> when it threw). For a call that returns, the source prints the same three
  values in its "Iteration" line.\<close>

record attempt =
  at_width :: int
  at_quality :: int
  at_size :: "nat option"

text \<open>The exception of a rejected encode call.\<close>

datatype error = SharpError

subsection \<open>The body of the loop\<close>

text \<open>\<open>if (size < MIN_SIZE) { width += 250; quality = Math.min(quality + 2, 98); }\<close>\<close>

definition too_small :: "nat \<Rightarrow> vars \<Rightarrow> vars" where
  "too_small sz v =
     (if sz < MIN_SIZE
      then v\<lparr>width := width v + 250, quality := min (quality v + 2) 98\<rparr>
      else v)"

text \<open>\<open>if (size > MAX_SIZE) { if (quality > 85) { quality -= 4; } else { width -= 250; } }\<close>\<close>

definition too_big :: "nat \<Rightarrow> vars \<Rightarrow> vars" where
  "too_big sz v =
     (if sz > MAX_SIZE
      then (if quality v > 85 then v\<lparr>quality := quality v - 4\<rparr>
            else v\<lparr>width := width v - 250\<rparr>)
      else v)"

text \<open>\<open>if (quality < 80) quality = 80; if (width < 2000) width = 2000;\<close>\<close>

definition safety_limits :: "vars \<Rightarrow> vars" where
  "safety_limits v =
     (let v1 = (if quality v < 80 then v\<lparr>quality := 80\<rparr> else v)
      in if width v1 < 2000 then v1\<lparr>width := 2000\<rparr> else v1)"

text \<open>The three statements in the order of the source, run when the size is out of range.\<close>

definition adjust :: "nat \<Rightarrow> vars \<Rightarrow> vars" where
  "adjust sz v = safety_limits (too_big sz (too_small sz v))"

definition in_range :: "nat \<Rightarrow> bool" where
  "in_range sz \<longleftrightarrow> sz \<ge> MIN_SIZE \<and> sz \<le> MAX_SIZE"

definition attempted :: "vars \<Rightarrow> nat option \<Rightarrow> attempt" where
  "attempted v r = \<lparr>at_width = width v, at_quality = quality v, at_size = r\<rparr>"

subsection \<open>The loop\<close>

text \<open>
  \<open>for (let i = 0; i < 25; i++) { jpgBuffer = await sharp(...); const size = jpgBuffer.length;
  if (size >= MIN_SIZE && size <= MAX_SIZE) break; ... }\<close>.
  The result is the list of encode calls made from iteration \<open>i\<close> on, and either the
  exception that left the loop or the variables after it.
\<close>

function conversion_loop :: "encoder \<Rightarrow> nat \<Rightarrow> vars \<Rightarrow> attempt list \<times> (error + vars)" where
  "conversion_loop enc i v =
     (if i < 25 then
        (case enc (width v) (quality v) of
           None \<Rightarrow> ([attempted v None], Inl SharpError)
         | Some buf \<Rightarrow>
             if in_range (length buf)
             then ([attempted v (Some (length buf))], Inr (v\<lparr>jpgBuffer := Some buf\<rparr>))
             else (case conversion_loop enc (i + 1) (adjust (length buf) (v\<lparr>jpgBuffer := Some buf\<rparr>))
                   of (rest, r) \<Rightarrow> (attempted v (Some (length buf)) # rest, r)))
      else ([], Inr v))"
  by pat_completeness auto
termination
  by (relation "measure (\<lambda>(enc, i, v). 25 - i)") auto

declare conversion_loop.simps [simp del]

subsection \<open>Final validation and the responses\<close>

text \<open>\<open>(size / (1024 * 1024)).toFixed(2)\<close>, as a number of hundredths: the quotient is exact in
  double precision (a division by a power of two), and \<open>toFixed\<close> rounds it to the nearest
  hundredth, the larger one on a tie.\<close>

definition sizeMB :: "nat \<Rightarrow> nat" where
  "sizeMB sz = (200 * sz + 1024 * 1024) div (2 * 1024 * 1024)"

text \<open>
  What the handler sends. \<open>Json200 image finalSizeMB finalWidth finalQuality\<close> is
  \<open>res.json({imageBase64: jpgBuffer.toString("base64"), ..., debugInfo: {finalSizeMB,
  finalWidth, finalQuality, ...}})\<close>: the image stands for its base64 text, and the constant
  fields and those computed from the request before the conversion are left out.
  \<open>Json500 msg\<close> is \<open>res.status(500).json({error: msg})\<close>.
\<close>

datatype response = Json200 buffer nat int int | Json500 string

text \<open>The object written by \<open>console.error("Image size lock failed", {sizeMB, width, quality,
  ...})\<close>; the two constant fields \<open>minSizeMB\<close> and \<open>maxSizeMB\<close> are left out.\<close>

record lock_failure =
  lf_sizeMB :: nat
  lf_width :: int
  lf_quality :: int

record outcome =
  sent :: response
  error_log :: "lock_failure option"
  calls :: "attempt list"

definition msg_size_lock :: string where
  "msg_size_lock =
     ''Failed to generate image within 1'' @ [CHR 0xE2, CHR 0x80, CHR 0x93] @ ''3 MB size constraints''"

definition msg_failed :: string where
  "msg_failed = ''Failed to generate image.''"

text \<open>
  The code after the loop. An exception anywhere in the handler ends in its \<open>catch\<close> block,
  which answers \<open>msg_failed\<close>; reading \<open>jpgBuffer.length\<close> of an undefined \<open>jpgBuffer\<close>
  would be such an exception.
\<close>

definition final_validation :: "attempt list \<times> (error + vars) \<Rightarrow> outcome" where
  "final_validation lr =
     (case lr of
        (cs, Inl e) \<Rightarrow> \<lparr>sent = Json500 msg_failed, error_log = None, calls = cs\<rparr>
      | (cs, Inr v) \<Rightarrow>
          (case jpgBuffer v of
             None \<Rightarrow> \<lparr>sent = Json500 msg_failed, error_log = None, calls = cs\<rparr>
           | Some buf \<Rightarrow>
               if length buf < MIN_SIZE \<or> length buf > MAX_SIZE
               then \<lparr>sent = Json500 msg_size_lock,
                     error_log = Some \<lparr>lf_sizeMB = sizeMB (length buf), lf_width = width v,
                                        lf_quality = quality v\<rparr>,
                     calls = cs\<rparr>
               else \<lparr>sent = Json200 buf (sizeMB (length buf)) (width v) (quality v),
                     error_log = None, calls = cs\<rparr>))"

definition generateImage :: "encoder \<Rightarrow> outcome" where
  "generateImage enc = final_validation (conversion_loop enc 0 initial_vars)"


subsection \<open>The same code over an encode step that need not be a function\<close>

text \<open>
  The encode step is an external call. To state that the search is determined by what the
  encode step returns, the loop is written a second time as a relation over an encode step
  \<open>E w q r\<close> ("a call with width \<open>w\<close> and quality \<open>q\<close> may return \<open>r\<close>"), one rule for
  each way through the body of the loop.
\<close>

type_synonym encode_step = "int \<Rightarrow> int \<Rightarrow> buffer option \<Rightarrow> bool"

inductive loop_rel :: "encode_step \<Rightarrow> nat \<Rightarrow> vars \<Rightarrow> attempt list \<times> (error + vars) \<Rightarrow> bool"
  for E :: encode_step where
  exit: "\<not> i < 25 \<Longrightarrow> loop_rel E i v ([], Inr v)"
| throw: "i < 25 \<Longrightarrow> E (width v) (quality v) None \<Longrightarrow>
          loop_rel E i v ([attempted v None], Inl SharpError)"
| hit: "i < 25 \<Longrightarrow> E (width v) (quality v) (Some buf) \<Longrightarrow> in_range (length buf) \<Longrightarrow>
        loop_rel E i v ([attempted v (Some (length buf))], Inr (v\<lparr>jpgBuffer := Some buf\<rparr>))"
| miss: "i < 25 \<Longrightarrow> E (width v) (quality v) (Some buf) \<Longrightarrow> \<not> in_range (length buf) \<Longrightarrow>
         loop_rel E (i + 1) (adjust (length buf) (v\<lparr>jpgBuffer := Some buf\<rparr>)) (rest, r) \<Longrightarrow>
         loop_rel E i v (attempted v (Some (length buf)) # rest, r)"

code_pred loop_rel .

definition generateImage_rel :: "encode_step \<Rightarrow> outcome \<Rightarrow> bool" where
  "generateImage_rel E out \<longleftrightarrow>
     (\<exists>lr. loop_rel E 0 initial_vars lr \<and> out = final_validation lr)"

text \<open>An encode step is deterministic when equal arguments give equal results.\<close>

definition deterministic :: "encode_step \<Rightarrow> bool" where
  "deterministic E \<longleftrightarrow> (\<forall>w q r r'. E w q r \<longrightarrow> E w q r' \<longrightarrow> r = r')"

text \<open>The encode step of a function.\<close>

definition graph_of :: "encoder \<Rightarrow> encode_step" where
  "graph_of enc w q r \<longleftrightarrow> r = enc w q"

subsection \<open>Auxiliary notions for the statements\<close>

text \<open>The variables an encode call was made with (the buffer plays no part in the
  adjustment).\<close>

definition params_of :: "attempt \<Rightarrow> vars" where
  "params_of a = \<lparr>jpgBuffer = None, width = at_width a, quality = at_quality a\<rparr>"

text \<open>The region the loop variables stay in.\<close>

definition bounded :: "vars \<Rightarrow> bool" where
  "bounded v \<longleftrightarrow> 2000 \<le> width v \<and> 82 \<le> quality v \<and> quality v \<le> 98"

text \<open>A synthetic encoder whose output has \<open>width * quality * k\<close> bytes, all zero
  (section 8 of the specification proposes such a size function for tests).\<close>

definition enc_lin :: "int \<Rightarrow> encoder" where
  "enc_lin k w q = Some (replicate (nat (w * q * k)) 0)"

text \<open>An encoder that rejects every call, as for source bytes that cannot be decoded.\<close>

definition enc_undecodable :: encoder where
  "enc_undecodable w q = None"

section \<open>Properties of the loop\<close>

subsection \<open>Unfolding and induction\<close>

lemma loop_unfold:
  "i < 25 \<Longrightarrow> conversion_loop enc i v =
     (case enc (width v) (quality v) of
        None \<Rightarrow> ([attempted v None], Inl SharpError)
      | Some buf \<Rightarrow>
          if in_range (length buf)
          then ([attempted v (Some (length buf))], Inr (v\<lparr>jpgBuffer := Some buf\<rparr>))
          else (case conversion_loop enc (i + 1) (adjust (length buf) (v\<lparr>jpgBuffer := Some buf\<rparr>))
                of (rest, r) \<Rightarrow> (attempted v (Some (length buf)) # rest, r)))"
  by (subst conversion_loop.simps) simp

lemma loop_exit: "\<not> i < 25 \<Longrightarrow> conversion_loop enc i v = ([], Inr v)"
  by (subst conversion_loop.simps) simp

lemmas adjust_defs = adjust_def too_small_def too_big_def safety_limits_def Let_def
  MIN_SIZE_def MAX_SIZE_def

lemma adjust_jpgBuffer: "jpgBuffer (adjust sz v) = jpgBuffer v"
  by (simp add: adjust_defs)

lemma adjust_params_only:
  "width (adjust sz (v\<lparr>jpgBuffer := b\<rparr>)) = width (adjust sz v)"
  "quality (adjust sz (v\<lparr>jpgBuffer := b\<rparr>)) = quality (adjust sz v)"
  by (simp_all add: adjust_defs)

lemma adjust_floors: "2000 \<le> width (adjust sz v)" "80 \<le> quality (adjust sz v)"
  by (auto simp add: adjust_defs)

lemma adjust_ceiling: "quality v \<le> 98 \<Longrightarrow> quality (adjust sz v) \<le> 98"
  by (auto simp add: adjust_defs)

lemma adjust_bounded: "bounded v \<Longrightarrow> bounded (adjust sz v)"
  by (auto simp add: adjust_defs bounded_def)

lemma bounded_jpgBuffer: "bounded (v\<lparr>jpgBuffer := b\<rparr>) = bounded v"
  by (simp add: bounded_def)

lemma conversion_loop_induct [consumes 1, case_names exit throw hit miss]:
  assumes run: "conversion_loop enc i v = (cs, r)"
    and exit: "\<And>i v. \<not> i < 25 \<Longrightarrow> P i v [] (Inr v)"
    and throw: "\<And>i v. i < 25 \<Longrightarrow> enc (width v) (quality v) = None \<Longrightarrow>
                  P i v [attempted v None] (Inl SharpError)"
    and hit: "\<And>i v buf. i < 25 \<Longrightarrow> enc (width v) (quality v) = Some buf \<Longrightarrow>
                in_range (length buf) \<Longrightarrow>
                P i v [attempted v (Some (length buf))] (Inr (v\<lparr>jpgBuffer := Some buf\<rparr>))"
    and miss: "\<And>i v buf rest r. i < 25 \<Longrightarrow> enc (width v) (quality v) = Some buf \<Longrightarrow>
                \<not> in_range (length buf) \<Longrightarrow>
                conversion_loop enc (i + 1) (adjust (length buf) (v\<lparr>jpgBuffer := Some buf\<rparr>))
                  = (rest, r) \<Longrightarrow>
                P (i + 1) (adjust (length buf) (v\<lparr>jpgBuffer := Some buf\<rparr>)) rest r \<Longrightarrow>
                P i v (attempted v (Some (length buf)) # rest) r"
  shows "P i v cs r"
  using run
proof (induction "25 - i" arbitrary: i v cs r)
  case 0
  then have "\<not> i < 25" by simp
  with "0.prems" exit[OF this, of v] show ?case by (simp add: loop_exit)
next
  case (Suc n)
  then have lt: "i < 25" by simp
  show ?case
  proof (cases "enc (width v) (quality v)")
    case None
    with lt Suc.prems throw[OF lt None] show ?thesis by (simp add: loop_unfold)
  next
    case (Some buf)
    show ?thesis
    proof (cases "in_range (length buf)")
      case True
      with lt Some Suc.prems hit[OF lt Some True] show ?thesis by (simp add: loop_unfold)
    next
      case False
      obtain rest r' where eq: "conversion_loop enc (i + 1)
          (adjust (length buf) (v\<lparr>jpgBuffer := Some buf\<rparr>)) = (rest, r')"
        by (cases "conversion_loop enc (i + 1) (adjust (length buf) (v\<lparr>jpgBuffer := Some buf\<rparr>))")
      from Suc.hyps(2) have "n = 25 - (i + 1)" by simp
      from Suc.hyps(1)[OF this eq]
      have "P (i + 1) (adjust (length buf) (v\<lparr>jpgBuffer := Some buf\<rparr>)) rest r'" .
      from miss[OF lt Some False eq this] lt Some False eq Suc.prems
      show ?thesis by (simp add: loop_unfold)
    qed
  qed
qed

lemma loop_length: "conversion_loop enc i v = (cs, r) \<Longrightarrow> length cs \<le> 25 - i"
  by (induction rule: conversion_loop_induct) simp_all

lemma bounded_attempted: "bounded (params_of (attempted v x)) = bounded v"
  by (simp add: bounded_def params_of_def attempted_def)

lemma loop_bounded:
  "conversion_loop enc i v = (cs, r) \<Longrightarrow> bounded v \<Longrightarrow>
     (\<forall>a \<in> set cs. bounded (params_of a)) \<and> (\<forall>v'. r = Inr v' \<longrightarrow> bounded v')"
  by (induction rule: conversion_loop_induct)
     (simp_all add: bounded_attempted bounded_jpgBuffer adjust_bounded)

subsection \<open>The calls follow one another by the adjustment\<close>

lemma loop_hd:
  "conversion_loop enc i v = (cs, r) \<Longrightarrow> cs \<noteq> [] \<Longrightarrow>
     at_width (hd cs) = width v \<and> at_quality (hd cs) = quality v"
  by (induction rule: conversion_loop_induct) (simp_all add: attempted_def)

lemma adjust_params_of:
  "width (adjust s (params_of (attempted v x))) = width (adjust s v)"
  "quality (adjust s (params_of (attempted v x))) = quality (adjust s v)"
  by (simp_all add: adjust_defs params_of_def attempted_def)

lemma loop_chain:
  "conversion_loop enc i v = (cs, r) \<Longrightarrow> Suc k < length cs \<Longrightarrow>
     \<exists>s. at_size (cs ! k) = Some s \<and> \<not> in_range s \<and>
         at_width (cs ! Suc k) = width (adjust s (params_of (cs ! k))) \<and>
         at_quality (cs ! Suc k) = quality (adjust s (params_of (cs ! k)))"
proof (induction arbitrary: k rule: conversion_loop_induct)
  case (miss i v buf rest r)
  show ?case
  proof (cases k)
    case 0
    with miss.prems have ne: "rest \<noteq> []" by auto
    from loop_hd[OF miss.hyps(4) ne] ne 0 miss.hyps(3)
    show ?thesis
      by (simp add: hd_conv_nth adjust_params_of adjust_params_only) (simp add: attempted_def)
  next
    case (Suc j)
    with miss.prems have "Suc j < length rest" by simp
    from miss.IH[OF this] Suc show ?thesis by simp
  qed
qed simp_all


subsection \<open>How the loop ends\<close>

lemma loop_throw:
  "conversion_loop enc i v = (cs, r) \<Longrightarrow> r = Inl e \<Longrightarrow> cs \<noteq> [] \<and> at_size (last cs) = None"
  by (induction rule: conversion_loop_induct) (simp_all add: attempted_def)

lemma loop_no_calls:
  "conversion_loop enc i v = (cs, r) \<Longrightarrow> cs = [] \<Longrightarrow> r = Inr v"
  by (induction rule: conversion_loop_induct) simp_all

lemma loop_last:
  "conversion_loop enc i v = (cs, r) \<Longrightarrow> r = Inr v' \<Longrightarrow> cs \<noteq> [] \<Longrightarrow>
     \<exists>b. jpgBuffer v' = Some b \<and> at_size (last cs) = Some (length b)"
proof (induction rule: conversion_loop_induct)
  case (miss i v buf rest r)
  show ?case
  proof (cases "rest = []")
    case True
    with loop_no_calls[OF miss.hyps(4)] miss.prems show ?thesis
      by (auto simp add: attempted_def adjust_jpgBuffer)
  next
    case False
    with miss.IH miss.prems show ?thesis by simp
  qed
qed (auto simp add: attempted_def)

lemma loop_success:
  "conversion_loop enc i v = (cs, r) \<Longrightarrow> r = Inr v' \<Longrightarrow>
   jpgBuffer v' = Some b \<Longrightarrow> in_range (length b) \<Longrightarrow>
     (cs = [] \<and> v' = v) \<or>
     (cs \<noteq> [] \<and> last cs = attempted v' (Some (length b)) \<and> enc (width v') (quality v') = Some b)"
proof (induction rule: conversion_loop_induct)
  case (miss i v buf rest r)
  from miss.IH miss.prems miss.hyps(3) show ?case
    by (auto simp: adjust_jpgBuffer)
qed (auto simp: attempted_def)

lemma loop_exhaust:
  "conversion_loop enc i v = (cs, r) \<Longrightarrow>
   \<forall>a \<in> set cs. \<exists>s. at_size a = Some s \<and> \<not> in_range s \<Longrightarrow>
     length cs = 25 - i \<and> (\<exists>v'. r = Inr v')"
  by (induction rule: conversion_loop_induct) (auto simp: attempted_def)

lemma oversized_at:
  assumes "bounded v"
    and "\<forall>w q. 2000 \<le> w \<longrightarrow> 80 \<le> q \<longrightarrow> (\<exists>b. enc w q = Some b \<and> MAX_SIZE < length b)"
  shows "\<exists>b. enc (width v) (quality v) = Some b \<and> MAX_SIZE < length b"
proof -
  from assms(1) have "2000 \<le> width v" "80 \<le> quality v"
    by (simp_all add: bounded_def)
  with assms(2) show ?thesis by blast
qed

lemma loop_oversized:
  "conversion_loop enc i v = (cs, r) \<Longrightarrow> bounded v \<Longrightarrow>
   \<forall>w q. 2000 \<le> w \<longrightarrow> 80 \<le> q \<longrightarrow> (\<exists>b. enc w q = Some b \<and> MAX_SIZE < length b) \<Longrightarrow>
     \<forall>a \<in> set cs. \<exists>s. at_size a = Some s \<and> MAX_SIZE < s"
proof (induction rule: conversion_loop_induct)
  case (throw i v)
  from oversized_at[OF throw.prems] throw.hyps show ?case by simp
next
  case (hit i v buf)
  from oversized_at[OF hit.prems] hit.hyps show ?case by (simp add: in_range_def)
next
  case (miss i v buf rest r)
  from miss.prems(1) have "bounded (adjust (length buf) (v\<lparr>jpgBuffer := Some buf\<rparr>))"
    by (simp add: adjust_bounded bounded_jpgBuffer)
  from miss.IH[OF this miss.prems(2)] oversized_at[OF miss.prems] miss.hyps(2)
  show ?case
    by (simp add: attempted_def)
qed simp


subsection \<open>The outcomes of the handler\<close>

lemma loop_nonempty:
  "conversion_loop enc i v = (cs, r) \<Longrightarrow> i < 25 \<Longrightarrow> cs \<noteq> []"
  by (induction rule: conversion_loop_induct) simp_all

lemma calls_generateImage:
  "calls (generateImage enc) = fst (conversion_loop enc 0 initial_vars)"
  by (simp add: generateImage_def final_validation_def split: prod.splits sum.splits option.splits)

lemma bounded_initial: "bounded initial_vars"
  by (simp add: bounded_def initial_vars_def)

lemma generateImage_cases [case_names thrown lock ok]:
  obtains
    (thrown) cs e where "conversion_loop enc 0 initial_vars = (cs, Inl e)"
      "generateImage enc = \<lparr>sent = Json500 msg_failed, error_log = None, calls = cs\<rparr>"
  | (lock) cs v b where "conversion_loop enc 0 initial_vars = (cs, Inr v)"
      "jpgBuffer v = Some b" "\<not> in_range (length b)"
      "generateImage enc = \<lparr>sent = Json500 msg_size_lock,
         error_log = Some \<lparr>lf_sizeMB = sizeMB (length b), lf_width = width v, lf_quality = quality v\<rparr>,
         calls = cs\<rparr>"
  | (ok) cs v b where "conversion_loop enc 0 initial_vars = (cs, Inr v)"
      "jpgBuffer v = Some b" "in_range (length b)"
      "generateImage enc = \<lparr>sent = Json200 b (sizeMB (length b)) (width v) (quality v),
         error_log = None, calls = cs\<rparr>"
proof (cases "conversion_loop enc 0 initial_vars")
  case (Pair cs r)
  show thesis
  proof (cases r)
    case (Inl e)
    with Pair thrown show thesis by (simp add: generateImage_def final_validation_def)
  next
    case (Inr v)
    from loop_nonempty[OF Pair] have "cs \<noteq> []" by simp
    from loop_last[OF Pair Inr this] obtain b where b: "jpgBuffer v = Some b" by blast
    show thesis
    proof (cases "in_range (length b)")
      case True
      with Pair Inr b ok[of cs v b] show thesis
        by (simp add: generateImage_def final_validation_def in_range_def not_less)
    next
      case False
      with Pair Inr b lock[of cs v b] show thesis
        by (simp add: generateImage_def final_validation_def in_range_def not_le) 
    qed
  qed
qed

subsection \<open>Facts about the calls of a whole run\<close>

lemma calls_bounded:
  "a \<in> set (calls (generateImage enc)) \<Longrightarrow> bounded (params_of a)"
proof -
  assume a: "a \<in> set (calls (generateImage enc))"
  obtain cs r where run: "conversion_loop enc 0 initial_vars = (cs, r)"
    by (cases "conversion_loop enc 0 initial_vars")
  from loop_bounded[OF run bounded_initial] a run show ?thesis
    by (simp add: calls_generateImage)
qed

lemma final_bounded:
  "conversion_loop enc 0 initial_vars = (cs, Inr v) \<Longrightarrow> bounded v"
  using loop_bounded[of enc 0 initial_vars cs "Inr v"] bounded_initial by simp

lemma bounded_params_of:
  "bounded (params_of a) \<longleftrightarrow> 2000 \<le> at_width a \<and> 82 \<le> at_quality a \<and> at_quality a \<le> 98"
  by (simp add: bounded_def params_of_def)

lemma calls_chain:
  assumes "Suc k < length (calls (generateImage enc))"
  shows "\<exists>s. at_size (calls (generateImage enc) ! k) = Some s \<and> \<not> in_range s \<and>
     at_width (calls (generateImage enc) ! Suc k) =
       width (adjust s (params_of (calls (generateImage enc) ! k))) \<and>
     at_quality (calls (generateImage enc) ! Suc k) =
       quality (adjust s (params_of (calls (generateImage enc) ! k)))"
proof -
  obtain cs r where run: "conversion_loop enc 0 initial_vars = (cs, r)"
    by (cases "conversion_loop enc 0 initial_vars")
  with assms have "Suc k < length cs" by (simp add: calls_generateImage)
  from loop_chain[OF run this] run show ?thesis by (simp add: calls_generateImage)
qed

lemma adjust_undersized:
  "bounded v \<Longrightarrow> s < MIN_SIZE \<Longrightarrow>
     width (adjust s v) = width v + 250 \<and> quality (adjust s v) = min (quality v + 2) 98"
  by (auto simp: adjust_defs bounded_def)

lemma adjust_oversized:
  "bounded v \<Longrightarrow> MAX_SIZE < s \<Longrightarrow>
     (85 < quality v \<longrightarrow> quality (adjust s v) = quality v - 4 \<and> width (adjust s v) = width v) \<and>
     (quality v \<le> 85 \<longrightarrow> quality (adjust s v) = quality v \<and>
                             width (adjust s v) = max 2000 (width v - 250))"
  by (auto simp: adjust_defs bounded_def)

lemma params_of_simps: "width (params_of a) = at_width a" "quality (params_of a) = at_quality a"
  by (simp_all add: params_of_def)

subsection \<open>Determinism of the relational loop\<close>

lemma deterministicD: "deterministic E \<Longrightarrow> E w q r \<Longrightarrow> E w q r' \<Longrightarrow> r = r'"
  unfolding deterministic_def by blast

lemma loop_rel_deterministic:
  assumes det: "deterministic E"
  shows "loop_rel E i v lr \<Longrightarrow> loop_rel E i v lr' \<Longrightarrow> lr = lr'"
proof (induction arbitrary: lr' rule: loop_rel.induct)
  case (exit i v)
  from exit.prems exit.hyps show ?case by cases simp_all
next
  case (throw i v)
  from throw.prems show ?case
  proof cases
    case exit
    with throw.hyps show ?thesis by simp
  next
    case throw
    then show ?thesis by simp
  next
    case (hit buf)
    with deterministicD[OF det throw.hyps(2) hit(3)] show ?thesis by simp
  next
    case (miss buf rest r)
    with deterministicD[OF det throw.hyps(2) miss(3)] show ?thesis by simp
  qed
next
  case (hit i v buf)
  from hit.prems show ?case
  proof cases
    case exit
    with hit.hyps show ?thesis by simp
  next
    case throw
    with deterministicD[OF det hit.hyps(2) throw(3)] show ?thesis by simp
  next
    case (hit buf')
    with deterministicD[OF det hit.hyps(2) hit(3)] show ?thesis by simp
  next
    case (miss buf' rest r)
    with deterministicD[OF det hit.hyps(2) miss(3)] hit.hyps(3) show ?thesis by simp
  qed
next
  case (miss i v buf rest r)
  from miss.prems show ?case
  proof cases
    case exit
    with miss.hyps show ?thesis by simp
  next
    case throw
    with deterministicD[OF det miss.hyps(2) throw(3)] show ?thesis by simp
  next
    case (hit buf')
    with deterministicD[OF det miss.hyps(2) hit(3)] miss.hyps(3) show ?thesis by simp
  next
    case (miss buf' rest' r')
    from deterministicD[OF det miss.hyps(2) miss(3)] have "buf' = buf" by simp
    with miss(5) have "loop_rel E (i + 1) (adjust (length buf) (v\<lparr>jpgBuffer := Some buf\<rparr>)) (rest', r')"
      by simp
    from miss.IH[OF this] miss(1) \<open>buf' = buf\<close> show ?thesis by simp
  qed
qed

lemma loop_rel_conversion_loop:
  "loop_rel (graph_of enc) i v (conversion_loop enc i v)"
proof -
  obtain cs r where run: "conversion_loop enc i v = (cs, r)"
    by (cases "conversion_loop enc i v")
  from run have "loop_rel (graph_of enc) i v (cs, r)"
    by (induction rule: conversion_loop_induct)
       (auto intro: loop_rel.intros simp: graph_of_def)
  with run show ?thesis by simp
qed

lemma deterministic_graph_of: "deterministic (graph_of enc)"
  by (simp add: deterministic_def graph_of_def)

lemma generateImage_rel_graph_of:
  "generateImage_rel (graph_of enc) out \<longleftrightarrow> out = generateImage enc"
proof
  assume "generateImage_rel (graph_of enc) out"
  then obtain lr where lr: "loop_rel (graph_of enc) 0 initial_vars lr" "out = final_validation lr"
    by (auto simp: generateImage_rel_def)
  from loop_rel_deterministic[OF deterministic_graph_of lr(1) loop_rel_conversion_loop]
  have "lr = conversion_loop enc 0 initial_vars" .
  with lr(2) show "out = generateImage enc" by (simp add: generateImage_def)
next
  assume "out = generateImage enc"
  with loop_rel_conversion_loop[of enc 0 initial_vars] show "generateImage_rel (graph_of enc) out"
    unfolding generateImage_rel_def generateImage_def by blast
qed

section \<open>Runs on concrete encoders\<close>

text \<open>Unfolding everything evaluates a run on a concrete encoder.\<close>

lemmas run_defs = generateImage_def final_validation_def initial_vars_def
  adjust_defs in_range_def attempted_def enc_lin_def sizeMB_def

lemma calls_enc_lin_14:
  "calls (generateImage (enc_lin 14)) =
     [\<lparr>at_width = 2800, at_quality = 94, at_size = Some 3684800\<rparr>,
      \<lparr>at_width = 2800, at_quality = 90, at_size = Some 3528000\<rparr>,
      \<lparr>at_width = 2800, at_quality = 86, at_size = Some 3371200\<rparr>,
      \<lparr>at_width = 2800, at_quality = 82, at_size = Some 3214400\<rparr>,
      \<lparr>at_width = 2550, at_quality = 82, at_size = Some 2927400\<rparr>]"
  by (simp add: run_defs conversion_loop.simps)

lemma calls_enc_lin_3:
  "calls (generateImage (enc_lin 3)) =
     [\<lparr>at_width = 2800, at_quality = 94, at_size = Some 789600\<rparr>,
      \<lparr>at_width = 3050, at_quality = 96, at_size = Some 878400\<rparr>,
      \<lparr>at_width = 3300, at_quality = 98, at_size = Some 970200\<rparr>,
      \<lparr>at_width = 3550, at_quality = 98, at_size = Some 1043700\<rparr>,
      \<lparr>at_width = 3800, at_quality = 98, at_size = Some 1117200\<rparr>]"
  by (simp add: run_defs conversion_loop.simps)

lemma sent_enc_lin_14:
  "sent (generateImage (enc_lin 14)) = Json200 (replicate 2927400 0) 279 2550 82"
  by (simp add: run_defs conversion_loop.simps)

lemma error_log_enc_lin_100:
  "error_log (generateImage (enc_lin 100)) =
     Some \<lparr>lf_sizeMB = 1564, lf_width = 2000, lf_quality = 82\<rparr>"
  by (simp add: run_defs conversion_loop.simps)

text \<open>An always undersized source: the last encode is at width 8800, and the variables
  written to the error log are those after the adjustment that follows it.\<close>

lemma error_log_enc_lin_1:
  "error_log (generateImage (enc_lin 1)) =
     Some \<lparr>lf_sizeMB = 82, lf_width = 9050, lf_quality = 98\<rparr>"
  by (simp add: run_defs conversion_loop.simps)

lemma last_call_enc_lin_1:
  "last (calls (generateImage (enc_lin 1))) =
     \<lparr>at_width = 8800, at_quality = 98, at_size = Some 862400\<rparr>"
  by (simp add: run_defs conversion_loop.simps)

lemma last_call_enc_lin_100:
  "last (calls (generateImage (enc_lin 100))) =
     \<lparr>at_width = 2000, at_quality = 82, at_size = Some 16400000\<rparr>"
  by (simp add: run_defs conversion_loop.simps)

text \<open>An always oversized source: the quality goes down to 82 first, then the width goes
  down in steps of 250 until the clamp holds it at 2000.\<close>

lemma calls_enc_lin_100_prefix:
  "take 9 (calls (generateImage (enc_lin 100))) =
     [\<lparr>at_width = 2800, at_quality = 94, at_size = Some 26320000\<rparr>,
      \<lparr>at_width = 2800, at_quality = 90, at_size = Some 25200000\<rparr>,
      \<lparr>at_width = 2800, at_quality = 86, at_size = Some 24080000\<rparr>,
      \<lparr>at_width = 2800, at_quality = 82, at_size = Some 22960000\<rparr>,
      \<lparr>at_width = 2550, at_quality = 82, at_size = Some 20910000\<rparr>,
      \<lparr>at_width = 2300, at_quality = 82, at_size = Some 18860000\<rparr>,
      \<lparr>at_width = 2050, at_quality = 82, at_size = Some 16810000\<rparr>,
      \<lparr>at_width = 2000, at_quality = 82, at_size = Some 16400000\<rparr>,
      \<lparr>at_width = 2000, at_quality = 82, at_size = Some 16400000\<rparr>]"
  by (simp add: run_defs conversion_loop.simps)

lemma length_calls_enc_lin_100: "length (calls (generateImage (enc_lin 100))) = 25"
  by (simp add: run_defs conversion_loop.simps)

lemma enc_lin_100_oversized:
  "\<forall>w q. 2000 \<le> w \<longrightarrow> 80 \<le> q \<longrightarrow> (\<exists>b. enc_lin 100 w q = Some b \<and> MAX_SIZE < length b)"
proof (intro allI impI)
  fix w q :: int
  assume w: "2000 \<le> w" and q: "80 \<le> q"
  then have "2000 * 80 \<le> w * q" by (intro mult_mono) simp_all
  then have "MAX_SIZE < nat (w * q * 100)" by (simp add: MAX_SIZE_def)
  then show "\<exists>b. enc_lin 100 w q = Some b \<and> MAX_SIZE < length b"
    by (simp add: enc_lin_def)
qed

lemma msgs_differ: "msg_size_lock \<noteq> msg_failed"
  by (simp add: msg_size_lock_def msg_failed_def)

section \<open>The claims\<close>

subsection \<open>C1: an image is returned only when its size is in range\<close>

text \<open>
  Claim C1. The conversion never returns an image whose encoded size lies outside
  \<open>[MIN_SIZE, MAX_SIZE]\<close>: a \<open>Json200\<close> response carries a buffer whose length is in the
  range, and whenever the last encode of the run returned a buffer whose length is out of
  range (the loop used up its iterations), the size is checked again after the loop and
  the response is the size-lock error instead of the image.
\<close>

theorem C1_in_range_or_error:
  "(sent (generateImage enc) = Json200 buf mb w q \<longrightarrow>
      MIN_SIZE \<le> length buf \<and> length buf \<le> MAX_SIZE) \<and>
   (at_size (last (calls (generateImage enc))) = Some s \<and> (s < MIN_SIZE \<or> MAX_SIZE < s) \<longrightarrow>
      sent (generateImage enc) = Json500 msg_size_lock)"
proof (cases enc rule: generateImage_cases)
  case (thrown cs e)
  from loop_throw[OF thrown(1)] thrown(2) show ?thesis by simp
next
  case (lock cs v b)
  then show ?thesis by simp
next
  case (ok cs v b)
  from loop_nonempty[OF ok(1)] have "cs \<noteq> []" by simp
  from loop_last[OF ok(1) refl this] ok(2) have "at_size (last cs) = Some (length b)" by simp
  with ok show ?thesis by (auto simp: in_range_def)
qed

text \<open>The theorem at two runs: one that succeeds and one that never reaches the range.\<close>

theorem C1_witness:
  "sent (generateImage (enc_lin 8)) = Json200 (replicate 2105600 0) 201 2800 94 \<and>
   MIN_SIZE \<le> length (replicate 2105600 (0 :: 8 word)) \<and>
   length (replicate 2105600 (0 :: 8 word)) \<le> MAX_SIZE \<and>
   at_size (last (calls (generateImage (enc_lin 100)))) = Some 16400000 \<and>
   MAX_SIZE < 16400000 \<and>
   sent (generateImage (enc_lin 100)) = Json500 msg_size_lock"
proof -
  have a: "sent (generateImage (enc_lin 8)) = Json200 (replicate 2105600 0) 201 2800 94"
    by (simp add: run_defs conversion_loop.simps)
  have b: "at_size (last (calls (generateImage (enc_lin 100)))) = Some 16400000"
    by (simp add: run_defs conversion_loop.simps)
  have c: "MAX_SIZE < 16400000" by (simp add: MAX_SIZE_def)
  from C1_in_range_or_error[of "enc_lin 8" "replicate 2105600 0" 201 2800 94] a
  have "MIN_SIZE \<le> length (replicate 2105600 (0 :: 8 word)) \<and>
        length (replicate 2105600 (0 :: 8 word)) \<le> MAX_SIZE" by blast
  moreover from C1_in_range_or_error[of "enc_lin 100" _ _ _ _ 16400000] b c
  have "sent (generateImage (enc_lin 100)) = Json500 msg_size_lock" by blast
  ultimately show ?thesis using a b c by blast
qed

subsection \<open>C2: what a failed search reports\<close>

text \<open>
  Claim C2 says that the failure returned to the caller carries the last attempted size,
  width and quality. The response of the code carries the error message only: two searches
  that end at different last attempts are answered by the same response.
\<close>

theorem C2_counterexample:
  "sent (generateImage (enc_lin 1)) = Json500 msg_size_lock \<and>
   sent (generateImage (enc_lin 100)) = sent (generateImage (enc_lin 1)) \<and>
   last (calls (generateImage (enc_lin 1))) =
     \<lparr>at_width = 8800, at_quality = 98, at_size = Some 862400\<rparr> \<and>
   last (calls (generateImage (enc_lin 100))) =
     \<lparr>at_width = 2000, at_quality = 82, at_size = Some 16400000\<rparr> \<and>
   last (calls (generateImage (enc_lin 100))) \<noteq> last (calls (generateImage (enc_lin 1)))"
  by (simp add: run_defs conversion_loop.simps)

text \<open>
  Claim C2, as the code has it. When the last encode of the run returned a buffer whose size
  is out of range, the response is the status-500 error with the size-lock message, and the
  size of that last result (in MB, two decimals) is written to the error log, not to the
  response. A run whose encode step threw (an undecodable source) is answered by a different
  message and writes no such log entry, so the two failures are distinct for the caller.
\<close>

theorem C2_failure_response:
  assumes "at_size (last (calls (generateImage enc))) = Some s" and "\<not> in_range s"
    and "at_size (last (calls (generateImage enc'))) = None"
  shows "sent (generateImage enc) = Json500 msg_size_lock \<and>
         map_option lf_sizeMB (error_log (generateImage enc)) = Some (sizeMB s) \<and>
         sent (generateImage enc') = Json500 msg_failed \<and>
         error_log (generateImage enc') = None \<and>
         sent (generateImage enc) \<noteq> sent (generateImage enc')"
proof -
  have A: "sent (generateImage enc) = Json500 msg_size_lock \<and>
         map_option lf_sizeMB (error_log (generateImage enc)) = Some (sizeMB s)"
  proof (cases enc rule: generateImage_cases)
    case (thrown cs e)
    from loop_throw[OF thrown(1) refl] thrown(2) assms(1) show ?thesis by simp
  next
    case (lock cs v b)
    from loop_nonempty[OF lock(1)] have "cs \<noteq> []" by simp
    from loop_last[OF lock(1) refl this] lock(2) have "at_size (last cs) = Some (length b)" by simp
    with lock(4) assms(1) show ?thesis by simp
  next
    case (ok cs v b)
    from loop_nonempty[OF ok(1)] have "cs \<noteq> []" by simp
    from loop_last[OF ok(1) refl this] ok(2) have "at_size (last cs) = Some (length b)" by simp
    with ok(3,4) assms(1,2) show ?thesis by simp
  qed
  have B: "sent (generateImage enc') = Json500 msg_failed \<and> error_log (generateImage enc') = None"
  proof (cases enc' rule: generateImage_cases)
    case (thrown cs e)
    then show ?thesis by simp
  next
    case (lock cs v b)
    from loop_nonempty[OF lock(1)] have "cs \<noteq> []" by simp
    from loop_last[OF lock(1) refl this] lock(4) assms(3) show ?thesis by auto
  next
    case (ok cs v b)
    from loop_nonempty[OF ok(1)] have "cs \<noteq> []" by simp
    from loop_last[OF ok(1) refl this] ok(4) assms(3) show ?thesis by auto
  qed
  from A B msgs_differ show ?thesis by simp
qed

theorem C2_witness:
  "at_size (last (calls (generateImage (enc_lin 100)))) = Some 16400000 \<and>
   \<not> in_range 16400000 \<and>
   at_size (last (calls (generateImage enc_undecodable))) = None \<and>
   sent (generateImage (enc_lin 100)) = Json500 msg_size_lock \<and>
   map_option lf_sizeMB (error_log (generateImage (enc_lin 100))) = Some 1564 \<and>
   sent (generateImage enc_undecodable) = Json500 msg_failed \<and>
   error_log (generateImage enc_undecodable) = None \<and>
   sent (generateImage (enc_lin 100)) \<noteq> sent (generateImage enc_undecodable)"
proof -
  have a: "at_size (last (calls (generateImage (enc_lin 100)))) = Some 16400000"
    by (simp add: run_defs conversion_loop.simps)
  have b: "\<not> in_range 16400000" by (simp add: in_range_def MAX_SIZE_def)
  have c: "at_size (last (calls (generateImage enc_undecodable))) = None"
    by (simp add: run_defs conversion_loop.simps enc_undecodable_def)
  have d: "sizeMB 16400000 = 1564" by (simp add: sizeMB_def)
  from C2_failure_response[OF a b c] a b c d show ?thesis by (simp add: msgs_differ)
qed

subsection \<open>C3: the clamps\<close>

text \<open>
  Claim C3. In every encode call of every run the width is at least 2000 and the quality is
  between 80 and 98; the same holds for the width and quality reported in a response or
  written to the error log, that is for the variables after the last adjustment. Each
  adjustment ends with the two clamps, whatever the direction: its result has width at
  least 2000 and quality at least 80, and quality at most 98 when it was so before.
\<close>

theorem C3_clamped:
  "(\<forall>a \<in> set (calls (generateImage enc)).
      2000 \<le> at_width a \<and> 80 \<le> at_quality a \<and> at_quality a \<le> 98) \<and>
   (sent (generateImage enc) = Json200 buf mb w q \<longrightarrow> 2000 \<le> w \<and> 80 \<le> q \<and> q \<le> 98) \<and>
   (error_log (generateImage enc) = Some lf \<longrightarrow>
      2000 \<le> lf_width lf \<and> 80 \<le> lf_quality lf \<and> lf_quality lf \<le> 98) \<and>
   2000 \<le> width (adjust sz v) \<and> 80 \<le> quality (adjust sz v) \<and>
   (quality v \<le> 98 \<longrightarrow> quality (adjust sz v) \<le> 98)"
proof -
  have 1: "\<forall>a \<in> set (calls (generateImage enc)).
      2000 \<le> at_width a \<and> 80 \<le> at_quality a \<and> at_quality a \<le> 98"
    using calls_bounded[of _ enc] by (fastforce simp: bounded_params_of)
  have 2: "sent (generateImage enc) = Json200 buf mb w q \<longrightarrow> 2000 \<le> w \<and> 80 \<le> q \<and> q \<le> 98"
  proof (cases enc rule: generateImage_cases)
    case (ok cs v b)
    from final_bounded[OF ok(1)] ok(4) show ?thesis by (auto simp: bounded_def)
  qed simp_all
  have 3: "error_log (generateImage enc) = Some lf \<longrightarrow>
      2000 \<le> lf_width lf \<and> 80 \<le> lf_quality lf \<and> lf_quality lf \<le> 98"
  proof (cases enc rule: generateImage_cases)
    case (lock cs v b)
    from final_bounded[OF lock(1)] lock(4) show ?thesis by (auto simp: bounded_def)
  qed simp_all
  from 1 2 3 adjust_floors[of sz v] adjust_ceiling[of v sz] show ?thesis by blast
qed

theorem C3_witness:
  "calls (generateImage (enc_lin 14)) ! 4 \<in> set (calls (generateImage (enc_lin 14))) \<and>
   at_width (calls (generateImage (enc_lin 14)) ! 4) = 2550 \<and>
   at_quality (calls (generateImage (enc_lin 14)) ! 4) = 82 \<and>
   2000 \<le> at_width (calls (generateImage (enc_lin 14)) ! 4) \<and>
   80 \<le> at_quality (calls (generateImage (enc_lin 14)) ! 4) \<and>
   at_quality (calls (generateImage (enc_lin 14)) ! 4) \<le> 98 \<and>
   sent (generateImage (enc_lin 14)) = Json200 (replicate 2927400 0) 279 2550 82 \<and>
   error_log (generateImage (enc_lin 100)) =
     Some \<lparr>lf_sizeMB = 1564, lf_width = 2000, lf_quality = 82\<rparr> \<and>
   quality initial_vars \<le> 98 \<and>
   2000 \<le> width (adjust 0 initial_vars) \<and>
   80 \<le> quality (adjust 0 initial_vars) \<and>
   quality (adjust 0 initial_vars) \<le> 98"
proof -
  have m: "calls (generateImage (enc_lin 14)) ! 4 \<in> set (calls (generateImage (enc_lin 14)))"
    by (simp add: calls_enc_lin_14)
  have v: "at_width (calls (generateImage (enc_lin 14)) ! 4) = 2550"
          "at_quality (calls (generateImage (enc_lin 14)) ! 4) = 82"
    by (simp_all add: calls_enc_lin_14)
  have q: "quality initial_vars \<le> 98" by (simp add: initial_vars_def)
  note T = C3_clamped[of "enc_lin 14" "replicate 2927400 0" 279 2550 82
      "\<lparr>lf_sizeMB = 1564, lf_width = 2000, lf_quality = 82\<rparr>" 0 initial_vars]
  from T m have "2000 \<le> at_width (calls (generateImage (enc_lin 14)) ! 4) \<and>
      80 \<le> at_quality (calls (generateImage (enc_lin 14)) ! 4) \<and>
      at_quality (calls (generateImage (enc_lin 14)) ! 4) \<le> 98" by blast
  moreover from T q have "2000 \<le> width (adjust 0 initial_vars) \<and>
      80 \<le> quality (adjust 0 initial_vars) \<and> quality (adjust 0 initial_vars) \<le> 98" by blast
  ultimately show ?thesis
    using m v q sent_enc_lin_14 error_log_enc_lin_100 by simp
qed

subsection \<open>C4: direction when the result is too small\<close>

text \<open>
  Claim C4. If the encode call number \<open>k\<close> of a run returned a size below \<open>MIN_SIZE\<close> and
  another call follows, the next call has the width increased by 250 and the quality
  increased by 2 but capped at 98; so neither the width nor the quality decreases.
\<close>

theorem C4_undersized_direction:
  assumes "Suc k < length (calls (generateImage enc))"
    and "at_size (calls (generateImage enc) ! k) = Some s"
    and "s < MIN_SIZE"
  shows "at_width (calls (generateImage enc) ! Suc k) = at_width (calls (generateImage enc) ! k) + 250 \<and>
         at_quality (calls (generateImage enc) ! Suc k) =
           min (at_quality (calls (generateImage enc) ! k) + 2) 98 \<and>
         at_width (calls (generateImage enc) ! k) \<le> at_width (calls (generateImage enc) ! Suc k) \<and>
         at_quality (calls (generateImage enc) ! k) \<le> at_quality (calls (generateImage enc) ! Suc k)"
proof -
  let ?a = "calls (generateImage enc) ! k" and ?b = "calls (generateImage enc) ! Suc k"
  from assms(1) have "?a \<in> set (calls (generateImage enc))" by simp
  then have bd: "bounded (params_of ?a)" by (rule calls_bounded)
  from calls_chain[OF assms(1)] assms(2)
  have "at_width ?b = width (adjust s (params_of ?a))"
       "at_quality ?b = quality (adjust s (params_of ?a))" by auto
  with adjust_undersized[OF bd assms(3)]
  have eq: "at_width ?b = at_width ?a + 250" "at_quality ?b = min (at_quality ?a + 2) 98"
    by (simp_all add: params_of_simps)
  from bd have "at_quality ?a \<le> 98" by (simp add: bounded_params_of)
  with eq show ?thesis by simp
qed

theorem C4_witness:
  "Suc 1 < length (calls (generateImage (enc_lin 3))) \<and>
   at_size (calls (generateImage (enc_lin 3)) ! 1) = Some 878400 \<and>
   878400 < MIN_SIZE \<and>
   at_width (calls (generateImage (enc_lin 3)) ! 1) = 3050 \<and>
   at_width (calls (generateImage (enc_lin 3)) ! Suc 1) = 3050 + 250 \<and>
   at_quality (calls (generateImage (enc_lin 3)) ! 1) = 96 \<and>
   at_quality (calls (generateImage (enc_lin 3)) ! Suc 1) = min (96 + 2) 98"
proof -
  have a: "Suc 1 < length (calls (generateImage (enc_lin 3)))" by (simp add: calls_enc_lin_3)
  have b: "at_size (calls (generateImage (enc_lin 3)) ! 1) = Some 878400"
    by (simp add: calls_enc_lin_3)
  have c: "878400 < MIN_SIZE" by (simp add: MIN_SIZE_def)
  have d: "at_width (calls (generateImage (enc_lin 3)) ! 1) = 3050"
          "at_quality (calls (generateImage (enc_lin 3)) ! 1) = 96"
    by (simp_all add: calls_enc_lin_3)
  from C4_undersized_direction[OF a b c] a b c d show ?thesis by simp
qed

subsection \<open>C5: quality before width when the result is too big\<close>

text \<open>
  Claim C5. For a size above \<open>MAX_SIZE\<close> the adjustment of the oversized case leaves the
  undersized case untouched and subtracts 4 from the quality when the quality is above 85,
  with the width unchanged; otherwise it subtracts 250 from the width, with the quality
  unchanged. Between two consecutive encode calls of a run this reads: above 85 the next
  call has quality minus 4 and the same width; at or below 85 the next call has the same
  quality and the width minus 250, held at 2000 by the clamp that follows. A call has a
  smaller width than the one before it only when the quality before was at or below 85.
\<close>

theorem C5_oversized_policy:
  "(MAX_SIZE < sz \<longrightarrow>
      too_small sz v = v \<and>
      too_big sz v = (if 85 < quality v then v\<lparr>quality := quality v - 4\<rparr>
                      else v\<lparr>width := width v - 250\<rparr>)) \<and>
   (Suc k < length (calls (generateImage enc)) \<and>
    at_size (calls (generateImage enc) ! k) = Some s \<and> MAX_SIZE < s \<longrightarrow>
      (85 < at_quality (calls (generateImage enc) ! k) \<longrightarrow>
         at_quality (calls (generateImage enc) ! Suc k) = at_quality (calls (generateImage enc) ! k) - 4 \<and>
         at_width (calls (generateImage enc) ! Suc k) = at_width (calls (generateImage enc) ! k)) \<and>
      (at_quality (calls (generateImage enc) ! k) \<le> 85 \<longrightarrow>
         at_quality (calls (generateImage enc) ! Suc k) = at_quality (calls (generateImage enc) ! k) \<and>
         at_width (calls (generateImage enc) ! Suc k) =
           max 2000 (at_width (calls (generateImage enc) ! k) - 250))) \<and>
   (Suc k < length (calls (generateImage enc)) \<and>
    at_width (calls (generateImage enc) ! Suc k) < at_width (calls (generateImage enc) ! k) \<longrightarrow>
      at_quality (calls (generateImage enc) ! k) \<le> 85)"
proof -
  let ?a = "calls (generateImage enc) ! k" and ?b = "calls (generateImage enc) ! Suc k"
  have 1: "too_small sz v = v \<and>
      too_big sz v = (if 85 < quality v then v\<lparr>quality := quality v - 4\<rparr>
                      else v\<lparr>width := width v - 250\<rparr>)" if "MAX_SIZE < sz"
    using that by (simp add: too_small_def too_big_def MIN_SIZE_def MAX_SIZE_def)
  have step: "\<exists>s. at_size ?a = Some s \<and> \<not> in_range s \<and> bounded (params_of ?a) \<and>
      at_width ?b = width (adjust s (params_of ?a)) \<and>
      at_quality ?b = quality (adjust s (params_of ?a))"
    if lt: "Suc k < length (calls (generateImage enc))"
  proof -
    from lt have "?a \<in> set (calls (generateImage enc))" by simp
    then have "bounded (params_of ?a)" by (rule calls_bounded)
    with calls_chain[OF lt] show ?thesis by blast
  qed
  have 2: "(85 < at_quality ?a \<longrightarrow> at_quality ?b = at_quality ?a - 4 \<and> at_width ?b = at_width ?a) \<and>
      (at_quality ?a \<le> 85 \<longrightarrow> at_quality ?b = at_quality ?a \<and>
         at_width ?b = max 2000 (at_width ?a - 250))"
    if lt: "Suc k < length (calls (generateImage enc))"
      and sz: "at_size ?a = Some s" and big: "MAX_SIZE < s"
  proof -
    from step[OF lt] sz have bd: "bounded (params_of ?a)"
      and eq: "at_width ?b = width (adjust s (params_of ?a))"
              "at_quality ?b = quality (adjust s (params_of ?a))" by auto
    from adjust_oversized[OF bd big] eq show ?thesis by (simp add: params_of_simps)
  qed
  have 3: "at_quality ?a \<le> 85"
    if lt: "Suc k < length (calls (generateImage enc))" and less: "at_width ?b < at_width ?a"
  proof -
    from step[OF lt] obtain s' where s': "at_size ?a = Some s'" "\<not> in_range s'"
      and bd: "bounded (params_of ?a)"
      and eq: "at_width ?b = width (adjust s' (params_of ?a))" by blast
    show ?thesis
    proof (cases "s' < MIN_SIZE")
      case True
      from adjust_undersized[OF bd True] eq less show ?thesis by (simp add: params_of_simps)
    next
      case False
      with s'(2) have "MAX_SIZE < s'" by (simp add: in_range_def)
      from adjust_oversized[OF bd this] eq less show ?thesis
        by (cases "85 < at_quality ?a") (simp_all add: params_of_simps)
    qed
  qed
  from 1 2 3 show ?thesis by blast
qed

theorem C5_witness:
  "MAX_SIZE < 3684800 \<and>
   too_big 3684800 initial_vars = initial_vars\<lparr>quality := 94 - 4\<rparr> \<and>
   Suc 0 < length (calls (generateImage (enc_lin 14))) \<and>
   at_size (calls (generateImage (enc_lin 14)) ! 0) = Some 3684800 \<and>
   85 < at_quality (calls (generateImage (enc_lin 14)) ! 0) \<and>
   at_quality (calls (generateImage (enc_lin 14)) ! Suc 0) = 94 - 4 \<and>
   at_width (calls (generateImage (enc_lin 14)) ! Suc 0) = 2800 \<and>
   Suc 3 < length (calls (generateImage (enc_lin 14))) \<and>
   at_size (calls (generateImage (enc_lin 14)) ! 3) = Some 3214400 \<and>
   MAX_SIZE < 3214400 \<and>
   at_quality (calls (generateImage (enc_lin 14)) ! 3) \<le> 85 \<and>
   at_quality (calls (generateImage (enc_lin 14)) ! Suc 3) = 82 \<and>
   at_width (calls (generateImage (enc_lin 14)) ! Suc 3) = max 2000 (2800 - 250) \<and>
   at_width (calls (generateImage (enc_lin 14)) ! Suc 3) <
     at_width (calls (generateImage (enc_lin 14)) ! 3)"
proof -
  have big: "MAX_SIZE < 3684800" "MAX_SIZE < 3214400" by (simp_all add: MAX_SIZE_def)
  have q0: "quality initial_vars = 94" "85 < quality initial_vars"
    by (simp_all add: initial_vars_def)
  have k0: "Suc 0 < length (calls (generateImage (enc_lin 14)))"
    "at_size (calls (generateImage (enc_lin 14)) ! 0) = Some 3684800"
    "at_quality (calls (generateImage (enc_lin 14)) ! 0) = 94"
    "at_width (calls (generateImage (enc_lin 14)) ! 0) = 2800"
    by (simp_all add: calls_enc_lin_14)
  have k3: "Suc 3 < length (calls (generateImage (enc_lin 14)))"
    "at_size (calls (generateImage (enc_lin 14)) ! 3) = Some 3214400"
    "at_quality (calls (generateImage (enc_lin 14)) ! 3) = 82"
    "at_width (calls (generateImage (enc_lin 14)) ! 3) = 2800"
    by (simp_all add: calls_enc_lin_14)
  have less: "at_width (calls (generateImage (enc_lin 14)) ! Suc 3) <
     at_width (calls (generateImage (enc_lin 14)) ! 3)"
    by (simp add: calls_enc_lin_14)
  from C5_oversized_policy[of 3684800 initial_vars 0 "enc_lin 14" 3684800] big(1) q0 k0
  have A: "too_big 3684800 initial_vars = initial_vars\<lparr>quality := 94 - 4\<rparr>"
    "at_quality (calls (generateImage (enc_lin 14)) ! Suc 0) = 94 - 4"
    "at_width (calls (generateImage (enc_lin 14)) ! Suc 0) = 2800"
    by simp_all
  from C5_oversized_policy[of 3684800 initial_vars 3 "enc_lin 14" 3214400] big(2) k3 less
  have B: "at_quality (calls (generateImage (enc_lin 14)) ! 3) \<le> 85"
    "at_quality (calls (generateImage (enc_lin 14)) ! Suc 3) = 82"
    "at_width (calls (generateImage (enc_lin 14)) ! Suc 3) = max 2000 (2800 - 250)"
    by simp_all
  from big k0 k3 less A B show ?thesis by simp
qed

subsection \<open>C6: success on the first iteration\<close>

text \<open>
  Claim C6. If the encode at the starting parameters (width 2800, quality 94) returns a
  buffer whose size is in range, the run makes exactly that one encode call and returns its
  result, with the starting width and quality reported unchanged.
\<close>

theorem C6_first_iteration:
  assumes "enc 2800 94 = Some b" and "MIN_SIZE \<le> length b" and "length b \<le> MAX_SIZE"
  shows "generateImage enc =
           \<lparr>sent = Json200 b (sizeMB (length b)) 2800 94, error_log = None,
            calls = [\<lparr>at_width = 2800, at_quality = 94, at_size = Some (length b)\<rparr>]\<rparr>"
  using assms
  by (simp add: generateImage_def final_validation_def initial_vars_def loop_unfold
      in_range_def attempted_def not_less)

theorem C6_witness:
  "enc_lin 8 2800 94 = Some (replicate 2105600 0) \<and>
   MIN_SIZE \<le> length (replicate 2105600 (0 :: 8 word)) \<and>
   length (replicate 2105600 (0 :: 8 word)) \<le> MAX_SIZE \<and>
   generateImage (enc_lin 8) =
     \<lparr>sent = Json200 (replicate 2105600 0) 201 2800 94, error_log = None,
      calls = [\<lparr>at_width = 2800, at_quality = 94, at_size = Some 2105600\<rparr>]\<rparr>"
proof -
  have a: "enc_lin 8 2800 94 = Some (replicate 2105600 0)" by (simp add: enc_lin_def)
  have b: "MIN_SIZE \<le> length (replicate 2105600 (0 :: 8 word))" by (simp add: MIN_SIZE_def)
  have c: "length (replicate 2105600 (0 :: 8 word)) \<le> MAX_SIZE" by (simp add: MAX_SIZE_def)
  from C6_first_iteration[of "enc_lin 8" "replicate 2105600 0", OF a b c] a b c
  show ?thesis by (simp add: sizeMB_def)
qed

subsection \<open>C7: at most 25 encode calls\<close>

text \<open>
  Claim C7. The loop is a total function and every run makes at most 25 encode calls. When
  no call of the run returned a size in range (and none threw), the run makes exactly 25
  calls and answers the size-lock error; this is the case in particular for a source whose
  encoding is larger than \<open>MAX_SIZE\<close> at every width from 2000 and quality from 80 on.
\<close>

theorem C7_at_most_25_encodes:
  "length (calls (generateImage enc)) \<le> 25 \<and>
   ((\<forall>a \<in> set (calls (generateImage enc)). \<exists>s. at_size a = Some s \<and> \<not> in_range s) \<longrightarrow>
      length (calls (generateImage enc)) = 25 \<and>
      sent (generateImage enc) = Json500 msg_size_lock) \<and>
   ((\<forall>w q. 2000 \<le> w \<longrightarrow> 80 \<le> q \<longrightarrow> (\<exists>b. enc w q = Some b \<and> MAX_SIZE < length b)) \<longrightarrow>
      length (calls (generateImage enc)) = 25 \<and>
      sent (generateImage enc) = Json500 msg_size_lock)"
proof -
  obtain cs r where run: "conversion_loop enc 0 initial_vars = (cs, r)"
    by (cases "conversion_loop enc 0 initial_vars")
  then have cs: "calls (generateImage enc) = cs" by (simp add: calls_generateImage)
  from loop_length[OF run] have 1: "length cs \<le> 25" by simp
  have 2: "length cs = 25 \<and> sent (generateImage enc) = Json500 msg_size_lock"
    if out: "\<forall>a \<in> set cs. \<exists>s. at_size a = Some s \<and> \<not> in_range s"
  proof -
    from loop_exhaust[OF run out] obtain v' where len: "length cs = 25" and r: "r = Inr v'"
      by auto
    from len have ne: "cs \<noteq> []" by auto
    from loop_last[OF run r ne] obtain b where
      b: "jpgBuffer v' = Some b" "at_size (last cs) = Some (length b)" by blast
    from ne out have "\<exists>s. at_size (last cs) = Some s \<and> \<not> in_range s" by simp
    with b have "\<not> in_range (length b)" by simp
    with run r b(1) have "sent (generateImage enc) = Json500 msg_size_lock"
      by (auto simp add: generateImage_def final_validation_def in_range_def)
    with len show ?thesis by simp
  qed
  have 3: "\<forall>a \<in> set cs. \<exists>s. at_size a = Some s \<and> \<not> in_range s"
    if "\<forall>w q. 2000 \<le> w \<longrightarrow> 80 \<le> q \<longrightarrow> (\<exists>b. enc w q = Some b \<and> MAX_SIZE < length b)"
    using loop_oversized[OF run bounded_initial that] by (fastforce simp: in_range_def)
  from 1 2 3 show ?thesis unfolding cs by blast
qed

theorem C7_witness:
  "enc_lin 100 2000 80 = Some (replicate 16000000 0) \<and>
   MAX_SIZE < length (replicate 16000000 (0 :: 8 word)) \<and>
   at_size (last (calls (generateImage (enc_lin 100)))) = Some 16400000 \<and>
   \<not> in_range 16400000 \<and>
   length (calls (generateImage (enc_lin 100))) \<le> 25 \<and>
   length (calls (generateImage (enc_lin 100))) = 25 \<and>
   sent (generateImage (enc_lin 100)) = Json500 msg_size_lock"
proof -
  from C7_at_most_25_encodes[of "enc_lin 100"] enc_lin_100_oversized
  have "length (calls (generateImage (enc_lin 100))) \<le> 25"
    "length (calls (generateImage (enc_lin 100))) = 25"
    "sent (generateImage (enc_lin 100)) = Json500 msg_size_lock" by blast+
  moreover have "enc_lin 100 2000 80 = Some (replicate 16000000 0)"
    by (simp add: enc_lin_def)
  moreover have "MAX_SIZE < length (replicate 16000000 (0 :: 8 word))"
    by (simp add: MAX_SIZE_def)
  moreover have "at_size (last (calls (generateImage (enc_lin 100)))) = Some 16400000"
    by (simp add: last_call_enc_lin_100)
  moreover have "\<not> in_range 16400000" by (simp add: in_range_def MAX_SIZE_def)
  ultimately show ?thesis by blast
qed

subsection \<open>C8: determinism\<close>

text \<open>
  Claim C8. With a deterministic encode step, two runs of the conversion on the same source
  have the same outcome: the same sequence of encode calls (width, quality and size of each)
  and the same response, be it the image or the failure.
\<close>

theorem C8_deterministic_search:
  assumes "deterministic E"
    and "generateImage_rel E out" and "generateImage_rel E out'"
  shows "out = out' \<and> calls out = calls out' \<and> sent out = sent out'"
proof -
  from assms(2) obtain lr where lr: "loop_rel E 0 initial_vars lr" "out = final_validation lr"
    by (auto simp: generateImage_rel_def)
  from assms(3) obtain lr' where lr': "loop_rel E 0 initial_vars lr'" "out' = final_validation lr'"
    by (auto simp: generateImage_rel_def)
  from loop_rel_deterministic[OF assms(1) lr(1) lr'(1)] lr(2) lr'(2) show ?thesis by simp
qed

theorem C8_witness:
  "deterministic (graph_of (enc_lin 14)) \<and>
   generateImage_rel (graph_of (enc_lin 14)) (generateImage (enc_lin 14)) \<and>
   (\<exists>!out. generateImage_rel (graph_of (enc_lin 14)) out) \<and>
   sent (generateImage (enc_lin 14)) = Json200 (replicate 2927400 0) 279 2550 82"
proof -
  have d: "deterministic (graph_of (enc_lin 14))" by (rule deterministic_graph_of)
  have r: "generateImage_rel (graph_of (enc_lin 14)) (generateImage (enc_lin 14))"
    by (simp add: generateImage_rel_graph_of)
  have "out = generateImage (enc_lin 14)"
    if "generateImage_rel (graph_of (enc_lin 14)) out" for out
    using C8_deterministic_search[OF d that r] by simp
  with r have "\<exists>!out. generateImage_rel (graph_of (enc_lin 14)) out" by blast
  moreover have "sent (generateImage (enc_lin 14)) = Json200 (replicate 2927400 0) 279 2550 82"
    by (simp add: run_defs conversion_loop.simps)
  ultimately show ?thesis using d r by blast
qed

subsection \<open>C9: the quality never drops below 82\<close>

text \<open>
  Claim C9. Starting from quality 94, the quality of every encode call of every run lies
  between 82 and 98, and so does the quality reported in a response or written to the error
  log. The clamp at 80 never fires: at every call of a run, whatever the size returned, the
  quality after the two adjustments and before the clamp is not below 80.
\<close>

theorem C9_quality_at_least_82:
  "(\<forall>a \<in> set (calls (generateImage enc)). 82 \<le> at_quality a \<and> at_quality a \<le> 98) \<and>
   (sent (generateImage enc) = Json200 buf mb w q \<longrightarrow> 82 \<le> q \<and> q \<le> 98) \<and>
   (error_log (generateImage enc) = Some lf \<longrightarrow> 82 \<le> lf_quality lf \<and> lf_quality lf \<le> 98) \<and>
   (\<forall>a \<in> set (calls (generateImage enc)). \<forall>s.
      \<not> quality (too_big s (too_small s (params_of a))) < 80)"
proof -
  have 1: "\<forall>a \<in> set (calls (generateImage enc)). 82 \<le> at_quality a \<and> at_quality a \<le> 98"
    using calls_bounded[of _ enc] by (fastforce simp: bounded_params_of)
  have 2: "sent (generateImage enc) = Json200 buf mb w q \<longrightarrow> 82 \<le> q \<and> q \<le> 98"
  proof (cases enc rule: generateImage_cases)
    case (ok cs v b)
    from final_bounded[OF ok(1)] ok(4) show ?thesis by (auto simp: bounded_def)
  qed simp_all
  have 3: "error_log (generateImage enc) = Some lf \<longrightarrow> 82 \<le> lf_quality lf \<and> lf_quality lf \<le> 98"
  proof (cases enc rule: generateImage_cases)
    case (lock cs v b)
    from final_bounded[OF lock(1)] lock(4) show ?thesis by (auto simp: bounded_def)
  qed simp_all
  have 4: "\<not> quality (too_big s (too_small s (params_of a))) < 80"
    if "a \<in> set (calls (generateImage enc))" for a s
    using calls_bounded[OF that]
    by (auto simp: bounded_def too_big_def too_small_def)
  from 1 2 3 4 show ?thesis by blast
qed

theorem C9_witness:
  "calls (generateImage (enc_lin 14)) ! 3 \<in> set (calls (generateImage (enc_lin 14))) \<and>
   at_quality (calls (generateImage (enc_lin 14)) ! 3) = 82 \<and>
   82 \<le> at_quality (calls (generateImage (enc_lin 14)) ! 3) \<and>
   at_quality (calls (generateImage (enc_lin 14)) ! 3) \<le> 98 \<and>
   sent (generateImage (enc_lin 14)) = Json200 (replicate 2927400 0) 279 2550 82 \<and>
   error_log (generateImage (enc_lin 100)) =
     Some \<lparr>lf_sizeMB = 1564, lf_width = 2000, lf_quality = 82\<rparr> \<and>
   \<not> quality (too_big 3214400
        (too_small 3214400 (params_of (calls (generateImage (enc_lin 14)) ! 3)))) < 80"
proof -
  have m: "calls (generateImage (enc_lin 14)) ! 3 \<in> set (calls (generateImage (enc_lin 14)))"
    by (simp add: calls_enc_lin_14)
  have v: "at_quality (calls (generateImage (enc_lin 14)) ! 3) = 82"
    by (simp add: calls_enc_lin_14)
  note T = C9_quality_at_least_82[of "enc_lin 14" "replicate 2927400 0" 279 2550 82
      "\<lparr>lf_sizeMB = 1564, lf_width = 2000, lf_quality = 82\<rparr>"]
  from T m have "82 \<le> at_quality (calls (generateImage (enc_lin 14)) ! 3) \<and>
      at_quality (calls (generateImage (enc_lin 14)) ! 3) \<le> 98" by blast
  moreover from T m have "\<not> quality (too_big 3214400
        (too_small 3214400 (params_of (calls (generateImage (enc_lin 14)) ! 3)))) < 80" by blast
  ultimately show ?thesis
    using m v sent_enc_lin_14 error_log_enc_lin_100 by simp
qed

subsection \<open>C10: the reported parameters are those of the returned image\<close>

text \<open>
  Claim C10. On success the width and quality of the response (\<open>debugInfo.finalWidth\<close>,
  \<open>debugInfo.finalQuality\<close>) are the arguments of the encode call that produced the
  returned bytes, and that call is the last one of the run: nothing is adjusted after it.
\<close>

theorem C10_reported_parameters:
  assumes "sent (generateImage enc) = Json200 buf mb w q"
  shows "enc w q = Some buf \<and>
         last (calls (generateImage enc)) = \<lparr>at_width = w, at_quality = q, at_size = Some (length buf)\<rparr>"
proof (cases enc rule: generateImage_cases)
  case (thrown cs e)
  with assms show ?thesis by simp
next
  case (lock cs v b)
  with assms show ?thesis by simp
next
  case (ok cs v b)
  from loop_nonempty[OF ok(1)] have "cs \<noteq> []" by simp
  with loop_success[OF ok(1) refl ok(2) ok(3)]
  have "last cs = attempted v (Some (length b))" "enc (width v) (quality v) = Some b" by simp_all
  with ok(4) assms show ?thesis by (simp add: attempted_def)
qed

theorem C10_witness:
  "sent (generateImage (enc_lin 14)) = Json200 (replicate 2927400 0) 279 2550 82 \<and>
   enc_lin 14 2550 82 = Some (replicate 2927400 0) \<and>
   last (calls (generateImage (enc_lin 14))) =
     \<lparr>at_width = 2550, at_quality = 82, at_size = Some (length (replicate 2927400 (0 :: 8 word)))\<rparr>"
proof -
  have a: "sent (generateImage (enc_lin 14)) = Json200 (replicate 2927400 0) 279 2550 82"
    by (simp add: run_defs conversion_loop.simps)
  from C10_reported_parameters[OF a] a show ?thesis by blast
qed

end
